theory Spec2Isabelle
  imports Main
begin

section \<open>The ping wrapper of src/c++/pingadd.cpp\<close>

text \<open>
  The program is one function, \<^verbatim>\<open>main\<close>. It builds a shell command from its single
  argument, runs it through \<^verbatim>\<open>popen\<close>, collects the command's output with an
  \<^verbatim>\<open>fgets\<close> loop, scans the collected text with two regular expressions and
  returns 0, 1 or 2. The model below follows it statement by statement. What the
  operating system contributes is a parameter of the model:
  \<^item> \<open>popen\<close> maps the command string to \<open>None\<close> (the call returned a null pointer) or
    to the finite sequence of bytes the spawned shell writes to the pipe before it exits
    (so that the \<^verbatim>\<open>pclose\<close> of the pipe's deleter returns);
  \<^item> \<open>stack\<close> is the number of nested calls the process stack leaves to the recursive
    matcher of \<^verbatim>\<open>std::regex_search\<close>. A search that needs more does not return: the
    process is killed by a signal.
\<close>

subsection \<open>Reading the pipe (lines 25 to 34)\<close>

definition NUL :: char where
  "NUL = CHR 0x00"

definition LF :: char where
  "LF = CHR 0x0A"

text \<open>\<^verbatim>\<open>std::array<char, 128> buffer\<close>\<close>

definition buffer_size :: nat where
  "buffer_size = 128"

text \<open>
  The characters one \<^verbatim>\<open>fgets\<close> call stores when it may store at most \<open>k\<close> of them:
  it stops after a newline, at the end of the stream, or when \<open>k\<close> characters are in
  the buffer. The second component is what is left in the stream.
\<close>

fun fgets_chars :: "nat \<Rightarrow> string \<Rightarrow> string \<times> string" where
  "fgets_chars 0 s = ([], s)"
| "fgets_chars (Suc k) [] = ([], [])"
| "fgets_chars (Suc k) (c # s) =
     (if c = LF then ([c], s)
      else (case fgets_chars k s of (buf, rest) \<Rightarrow> (c # buf, rest)))"

text \<open>
  \<^verbatim>\<open>fgets(buf, n, stream)\<close> stores at most \<open>n - 1\<close> characters and a terminating
  zero byte; it returns a null pointer (here \<open>None\<close>) when the stream is at its end
  and nothing was read.
\<close>

definition fgets :: "nat \<Rightarrow> string \<Rightarrow> (string \<times> string) option" where
  "fgets n pipe = (if pipe = [] then None else Some (fgets_chars (n - 1) pipe))"

text \<open>
  \<^verbatim>\<open>result += buffer.data()\<close> appends a C string: the bytes of the buffer up to
  the first zero byte, which is either the terminator \<^verbatim>\<open>fgets\<close> wrote or a zero
  byte that came out of the pipe.
\<close>

definition c_str :: "string \<Rightarrow> string" where
  "c_str buf = takeWhile (\<lambda>c. c \<noteq> NUL) buf"

lemma fgets_chars_length:
  "length (snd (fgets_chars k s)) = length s - length (fst (fgets_chars k s))"
  by (induction k s rule: fgets_chars.induct) (auto split: prod.splits)

lemma fgets_chars_progress:
  "fgets_chars (Suc k) (c # s) = (buf, rest) \<Longrightarrow> length rest < Suc (length s)"
  using fgets_chars_length [of k s]
  by (auto split: if_splits prod.splits)

lemma fgets_progress:
  assumes "fgets buffer_size pipe = Some (buf, rest)"
  shows "length rest < length pipe"
proof (cases pipe)
  case Nil
  with assms show ?thesis by (simp add: fgets_def)
next
  case (Cons c s)
  with assms have "fgets_chars (Suc 126) (c # s) = (buf, rest)"
    by (simp add: fgets_def buffer_size_def)
  from fgets_chars_progress [OF this] Cons show ?thesis by simp
qed

text \<open>
  \<^verbatim>\<open>while (fgets(buffer.data(), buffer.size(), pipe.get()) != nullptr) result += buffer.data();\<close>
\<close>

function read_loop :: "string \<Rightarrow> string \<Rightarrow> string" where
  "read_loop pipe result =
     (case fgets buffer_size pipe of
        None \<Rightarrow> result
      | Some (buf, rest) \<Rightarrow> read_loop rest (result @ c_str buf))"
  by pat_completeness auto
termination
  by (relation "measure (\<lambda>(pipe, result). length pipe)") (auto dest: fgets_progress)

declare read_loop.simps [simp del]

subsection \<open>The regular expressions (lines 40 to 52)\<close>

text \<open>
  \<^verbatim>\<open>std::regex\<close> with its default ECMAScript grammar is library code. Both patterns
  of the program are flat: a sequence of single-character atoms, some of them under
  \<^verbatim>\<open>?\<close>, \<^verbatim>\<open>*\<close> or \<^verbatim>\<open>+\<close>, with one capture group. The model has exactly these
  forms. A character set is the list of its members.
\<close>

type_synonym cset = "char list"

datatype rx_item =
    Atom cset
  | Quest cset
  | Star cset
  | Plus cset
  | GroupOpen
  | GroupClose

text \<open>
  The state of capture group 1 while a match is tried: whether the group is open, and
  the characters it has taken.
\<close>

type_synonym capture = "bool \<times> string"

fun take_char :: "char \<Rightarrow> capture \<Rightarrow> capture" where
  "take_char c (recording, g) = (if recording then (recording, g @ [c]) else (recording, g))"

text \<open>
  What becomes of one call of \<^verbatim>\<open>std::regex_search\<close>: it returns \<^verbatim>\<open>false\<close>
  (\<open>NoMatch\<close>), it returns \<^verbatim>\<open>true\<close> with \<^verbatim>\<open>m[1] = g\<close> (\<open>Match g\<close>), or it does not
  return, because the matcher's recursion has used up the stack and the process is
  killed (\<open>StackOverflow\<close>).
\<close>

datatype search = StackOverflow | NoMatch | Match string

text \<open>
  A backtracking match anchored at the head of the input, in the priority order of
  ECMAScript: a greedy quantifier first tries to take one more character and falls back
  to taking none only when the rest of the pattern then fails. The matcher of the
  library is recursive: it calls itself for every item of the pattern it enters and
  for every further character a quantifier takes, and it returns through all these
  calls only at the end of the attempt. The first argument is the number of nested
  calls the stack still has room for.
\<close>

fun match_here :: "nat \<Rightarrow> rx_item list \<Rightarrow> string \<Rightarrow> capture \<Rightarrow> search" where
  "match_here 0 p s cap = StackOverflow"
| "match_here (Suc d) [] s cap = Match (snd cap)"
| "match_here (Suc d) (GroupOpen # p) s cap = match_here d p s (True, [])"
| "match_here (Suc d) (GroupClose # p) s cap = match_here d p s (False, snd cap)"
| "match_here (Suc d) (Atom cs # p) [] cap = NoMatch"
| "match_here (Suc d) (Atom cs # p) (c # s) cap =
     (if c \<in> set cs then match_here d p s (take_char c cap) else NoMatch)"
| "match_here (Suc d) (Quest cs # p) [] cap = match_here d p [] cap"
| "match_here (Suc d) (Quest cs # p) (c # s) cap =
     (if c \<in> set cs then
        (case match_here d p s (take_char c cap) of
           StackOverflow \<Rightarrow> StackOverflow
         | Match g \<Rightarrow> Match g
         | NoMatch \<Rightarrow> match_here d p (c # s) cap)
      else match_here d p (c # s) cap)"
| "match_here (Suc d) (Star cs # p) [] cap = match_here d p [] cap"
| "match_here (Suc d) (Star cs # p) (c # s) cap =
     (if c \<in> set cs then
        (case match_here d (Star cs # p) s (take_char c cap) of
           StackOverflow \<Rightarrow> StackOverflow
         | Match g \<Rightarrow> Match g
         | NoMatch \<Rightarrow> match_here d p (c # s) cap)
      else match_here d p (c # s) cap)"
| "match_here (Suc d) (Plus cs # p) [] cap = NoMatch"
| "match_here (Suc d) (Plus cs # p) (c # s) cap =
     (if c \<in> set cs then match_here d (Star cs # p) s (take_char c cap) else NoMatch)"

text \<open>
  \<^verbatim>\<open>std::regex_search(result, m, r)\<close>: the match at the leftmost position of the
  text where one exists. The positions are tried in a loop, each attempt with the whole
  stack; an attempt that overflows ends the process.
\<close>

fun regex_search :: "nat \<Rightarrow> string \<Rightarrow> rx_item list \<Rightarrow> search" where
  "regex_search stack [] r = match_here stack r [] (False, [])"
| "regex_search stack (c # s) r =
     (case match_here stack r (c # s) (False, []) of
        StackOverflow \<Rightarrow> StackOverflow
      | Match g \<Rightarrow> Match g
      | NoMatch \<Rightarrow> regex_search stack s r)"

text \<open>\<^verbatim>\<open>[0-9]\<close>\<close>

definition digit :: cset where
  "digit = ''0123456789''"

text \<open>
  \<^verbatim>\<open>\s\<close>: the characters the C locale classifies as white space (the program never
  changes the global locale): space, tab, line feed, vertical tab, form feed,
  carriage return.
\<close>

definition space :: cset where
  "space = [CHR '' '', CHR 0x09, CHR 0x0A, CHR 0x0B, CHR 0x0C, CHR 0x0D]"

text \<open>A run of ordinary characters of a pattern.\<close>

definition lit :: "string \<Rightarrow> rx_item list" where
  "lit s = map (\<lambda>c. Atom [c]) s"

text \<open>\<^verbatim>\<open>std::regex r_time("time=([0-9]+\\.?[0-9]*)\\s?ms");\<close>\<close>

definition r_time :: "rx_item list" where
  "r_time = lit ''time='' @ [GroupOpen, Plus digit, Quest ''.'', Star digit, GroupClose, Quest space]
              @ lit ''ms''"

text \<open>\<^verbatim>\<open>std::regex r_time_win("Average = ([0-9]+)ms");\<close>\<close>

definition r_time_win :: "rx_item list" where
  "r_time_win = lit ''Average = '' @ [GroupOpen, Plus digit, GroupClose] @ lit ''ms''"

subsection \<open>main (lines 13 to 59)\<close>

text \<open>
  What one run of the program does: its exit code, what it writes to \<^verbatim>\<open>std::cout\<close>
  and to \<^verbatim>\<open>std::cerr\<close>, and the commands it hands to \<^verbatim>\<open>popen\<close>. The exit code is
  the value \<^verbatim>\<open>main\<close> returns; a process that is killed before \<^verbatim>\<open>main\<close> returns has
  none (\<open>None\<close>).
\<close>

record outcome =
  exit_code :: "int option"
  out :: string
  err :: string
  spawned :: "string list"

text \<open>\<^verbatim>\<open>std::string cmd = "ping -c 1 " + host + " 2>&1";\<close>\<close>

definition cmd_of :: "string \<Rightarrow> string" where
  "cmd_of host = ''ping -c 1 '' @ host @ '' 2>&1''"

text \<open>
  The argument vector is the list of its strings, and \<open>argc\<close> is its length. The
  strings come from the operating system as C strings: they hold no zero byte, so
  \<^verbatim>\<open>std::string host = argv[1]\<close> and \<^verbatim>\<open>cmd.c_str()\<close> copy every character.

  The usage message. With an empty argument vector
  \<^verbatim>\<open>argv[0]\<close> is a null pointer; the stream insertion of a null \<^verbatim>\<open>char*\<close> puts
  \<^verbatim>\<open>std::cerr\<close> into its failed state, and nothing after \<^verbatim>\<open>"Usage: "\<close> is written.
\<close>

fun usage :: "string list \<Rightarrow> string" where
  "usage [] = ''Usage: ''"
| "usage (argv0 # rest) = ''Usage: '' @ argv0 @ '' <host-or-ip>'' @ [LF]"

text \<open>
  The process dies inside a search that overflows the stack: nothing has been written
  at that point, and no exit code is returned.
\<close>

definition killed :: "string \<Rightarrow> outcome" where
  "killed cmd = \<lparr>exit_code = None, out = [], err = [], spawned = [cmd]\<rparr>"

definition main :: "nat \<Rightarrow> string list \<Rightarrow> (string \<Rightarrow> string option) \<Rightarrow> outcome" where
  "main stack argv popen =
     (if length argv \<noteq> 2 then
        \<lparr>exit_code = Some 1, out = [], err = usage argv, spawned = []\<rparr>
      else
        let host = argv ! 1;
            cmd = cmd_of host
        in case popen cmd of
             None \<Rightarrow>
               \<lparr>exit_code = Some 1, out = [], err = ''Failed to run ping command'' @ [LF],
                spawned = [cmd]\<rparr>
           | Some pipe \<Rightarrow>
               let result = read_loop pipe []
               in (case regex_search stack result r_time of
                    StackOverflow \<Rightarrow> killed cmd
                  | Match m1 \<Rightarrow>
                      \<lparr>exit_code = Some 0,
                       out = ''Reply from '' @ host @ '': time='' @ m1 @ '' ms'' @ [LF],
                       err = [], spawned = [cmd]\<rparr>
                  | NoMatch \<Rightarrow>
                      (case regex_search stack result r_time_win of
                         StackOverflow \<Rightarrow> killed cmd
                       | Match m1 \<Rightarrow>
                           \<lparr>exit_code = Some 0,
                            out = ''Reply from '' @ host @ '': time='' @ m1 @ '' ms (avg)'' @ [LF],
                            err = [], spawned = [cmd]\<rparr>
                       | NoMatch \<Rightarrow>
                           \<lparr>exit_code = Some 2,
                            out = ''No reply / unable to parse time. Raw output:'' @ [LF]
                                  @ result @ [LF],
                            err = [], spawned = [cmd]\<rparr>)))"

subsection \<open>The words a pattern accepts\<close>

text \<open>
  A reading of the patterns that does not depend on the order in which a backtracking
  matcher tries the alternatives: \<open>matches p cap w g\<close> holds when the pattern \<open>p\<close>,
  started with capture state \<open>cap\<close>, accepts exactly the word \<open>w\<close> with \<open>g\<close> as the
  text of group 1.
\<close>

inductive matches :: "rx_item list \<Rightarrow> capture \<Rightarrow> string \<Rightarrow> string \<Rightarrow> bool" where
  m_end: "matches [] cap [] (snd cap)"
| m_open: "matches p (True, []) w g \<Longrightarrow> matches (GroupOpen # p) cap w g"
| m_close: "matches p (False, snd cap) w g \<Longrightarrow> matches (GroupClose # p) cap w g"
| m_atom: "c \<in> set cs \<Longrightarrow> matches p (take_char c cap) w g \<Longrightarrow> matches (Atom cs # p) cap (c # w) g"
| m_quest_none: "matches p cap w g \<Longrightarrow> matches (Quest cs # p) cap w g"
| m_quest_one: "c \<in> set cs \<Longrightarrow> matches p (take_char c cap) w g \<Longrightarrow> matches (Quest cs # p) cap (c # w) g"
| m_star_none: "matches p cap w g \<Longrightarrow> matches (Star cs # p) cap w g"
| m_star_more: "c \<in> set cs \<Longrightarrow> matches (Star cs # p) (take_char c cap) w g \<Longrightarrow> matches (Star cs # p) cap (c # w) g"
| m_plus: "c \<in> set cs \<Longrightarrow> matches (Star cs # p) (take_char c cap) w g \<Longrightarrow> matches (Plus cs # p) cap (c # w) g"

text \<open>\<^verbatim>\<open>\s?\<close>: at most one white-space character.\<close>

definition spacer :: "string \<Rightarrow> bool" where
  "spacer sp \<longleftrightarrow> length sp \<le> 1 \<and> set sp \<subseteq> set space"

text \<open>\<^verbatim>\<open>[0-9]+\.?[0-9]*\<close>: digits, then possibly a dot, then possibly more digits.\<close>

definition number_text :: "string \<Rightarrow> bool" where
  "number_text n \<longleftrightarrow>
     (\<exists>d1 dot d2. n = d1 @ dot @ d2 \<and> d1 \<noteq> [] \<and> set d1 \<subseteq> set digit \<and>
        (dot = [] \<or> dot = ''.'') \<and> set d2 \<subseteq> set digit)"

text \<open>A text that holds a piece of the first, or of the second, form.\<close>

definition has_time :: "string \<Rightarrow> bool" where
  "has_time s \<longleftrightarrow>
     (\<exists>pre n sp post. s = pre @ ''time='' @ n @ sp @ ''ms'' @ post \<and> number_text n \<and> spacer sp)"

definition has_average :: "string \<Rightarrow> bool" where
  "has_average s \<longleftrightarrow>
     (\<exists>pre n post. s = pre @ ''Average = '' @ n @ ''ms'' @ post \<and> n \<noteq> [] \<and> set n \<subseteq> set digit)"

section \<open>What the library calls of the model compute\<close>

subsection \<open>The text the read loop collects\<close>

text \<open>
  The loop cuts the output into chunks and glues them together again; only a zero byte
  makes a difference, since the rest of its chunk is lost. An output without zero bytes
  is collected unchanged, and the collected text is never longer than the output.
\<close>

lemma fgets_chars_append:
  "fgets_chars k s = (buf, rest) \<Longrightarrow> buf @ rest = s"
proof (induction k s arbitrary: buf rest rule: fgets_chars.induct)
  case (3 k c s)
  then show ?case
    by (cases "fgets_chars k s") (auto split: if_splits)
qed simp_all

lemma c_str_id: "NUL \<notin> set buf \<Longrightarrow> c_str buf = buf"
  by (auto simp: c_str_def takeWhile_eq_all_conv)

lemma read_loop_text:
  "NUL \<notin> set pipe \<Longrightarrow> read_loop pipe result = result @ pipe"
proof (induction pipe result rule: read_loop.induct)
  case (1 pipe result)
  show ?case
  proof (cases "fgets buffer_size pipe")
    case None
    then have "pipe = []"
      by (simp add: fgets_def split: if_splits)
    with None show ?thesis
      by (simp add: read_loop.simps)
  next
    case (Some a)
    obtain buf rest where a: "a = (buf, rest)"
      by (cases a)
    with Some have "fgets_chars (buffer_size - 1) pipe = (buf, rest)"
      by (simp add: fgets_def split: if_splits)
    then have split: "buf @ rest = pipe"
      by (rule fgets_chars_append)
    with "1.prems" have "NUL \<notin> set buf" and "NUL \<notin> set rest"
      by auto
    with "1.IH" [OF Some a [symmetric]] have "read_loop rest (result @ c_str buf) = result @ buf @ rest"
      by (simp add: c_str_id)
    with Some a split show ?thesis
      by (simp add: read_loop.simps [of pipe])
  qed
qed

lemma c_str_length: "length (c_str buf) \<le> length buf"
  by (simp add: c_str_def length_takeWhile_le)

lemma read_loop_length:
  "length (read_loop pipe result) \<le> length result + length pipe"
proof (induction pipe result rule: read_loop.induct)
  case (1 pipe result)
  show ?case
  proof (cases "fgets buffer_size pipe")
    case None
    then show ?thesis
      by (simp add: read_loop.simps [of pipe])
  next
    case (Some a)
    obtain buf rest where a: "a = (buf, rest)"
      by (cases a)
    with Some have "fgets_chars (buffer_size - 1) pipe = (buf, rest)"
      by (simp add: fgets_def split: if_splits)
    then have "buf @ rest = pipe"
      by (rule fgets_chars_append)
    then have "length pipe = length buf + length rest"
      by auto
    with "1.IH" [OF Some a [symmetric]] c_str_length [of buf] Some a show ?thesis
      by (simp add: read_loop.simps [of pipe])
  qed
qed

subsection \<open>The stack and the search\<close>

text \<open>
  The size of the stack decides only whether a search returns: where it returns, its
  result is the one every larger stack gives. A stack with room for more nested calls
  than the pattern has items and the text has characters is always enough.
\<close>

lemma match_here_mono:
  "d \<le> e \<Longrightarrow> match_here d p s cap = StackOverflow \<or> match_here d p s cap = match_here e p s cap"
proof (induction d p s cap arbitrary: e rule: match_here.induct)
  case (1 p s cap)
  show ?case by simp
next
  case (2 d s cap)
  then show ?case by (cases e) simp_all
next
  case (3 d p s cap)
  then show ?case by (cases e) simp_all
next
  case (4 d p s cap)
  then show ?case by (cases e) simp_all
next
  case (5 d cs p cap)
  then show ?case by (cases e) simp_all
next
  case (6 d cs p c s cap)
  then show ?case by (cases e) simp_all
next
  case (7 d cs p cap)
  then show ?case by (cases e) simp_all
next
  case (8 d cs p c s cap)
  from "8.prems" obtain e' where e: "e = Suc e'" and le: "d \<le> e'"
    by (cases e) simp_all
  show ?case
  proof (cases "c \<in> set cs")
    case False
    with "8.IH"(3) [OF False le] e show ?thesis by simp
  next
    case True
    note inner = "8.IH"(1) [OF True le]
    show ?thesis
    proof (cases "match_here d p s (take_char c cap)")
      case StackOverflow
      with True show ?thesis by simp
    next
      case NoMatch
      with inner have "match_here e' p s (take_char c cap) = NoMatch" by simp
      with "8.IH"(2) [OF True NoMatch le] True NoMatch e show ?thesis by simp
    next
      case (Match g)
      with inner have "match_here e' p s (take_char c cap) = Match g" by simp
      with True Match e show ?thesis by simp
    qed
  qed
next
  case (9 d cs p cap)
  then show ?case by (cases e) simp_all
next
  case (10 d cs p c s cap)
  from "10.prems" obtain e' where e: "e = Suc e'" and le: "d \<le> e'"
    by (cases e) simp_all
  show ?case
  proof (cases "c \<in> set cs")
    case False
    with "10.IH"(3) [OF False le] e show ?thesis by simp
  next
    case True
    note inner = "10.IH"(1) [OF True le]
    show ?thesis
    proof (cases "match_here d (Star cs # p) s (take_char c cap)")
      case StackOverflow
      with True show ?thesis by simp
    next
      case NoMatch
      with inner have "match_here e' (Star cs # p) s (take_char c cap) = NoMatch" by simp
      with "10.IH"(2) [OF True NoMatch le] True NoMatch e show ?thesis by simp
    next
      case (Match g)
      with inner have "match_here e' (Star cs # p) s (take_char c cap) = Match g" by simp
      with True Match e show ?thesis by simp
    qed
  qed
next
  case (11 d cs p cap)
  then show ?case by (cases e) simp_all
next
  case (12 d cs p c s cap)
  then show ?case by (cases e) simp_all
qed

lemma match_here_returns:
  "length p + length s < d \<Longrightarrow> match_here d p s cap \<noteq> StackOverflow"
proof (induction d p s cap rule: match_here.induct)
  case (8 d cs p c s cap)
  then show ?case by (auto split: search.splits)
next
  case (10 d cs p c s cap)
  then show ?case by (auto split: search.splits)
qed simp_all

lemma regex_search_mono:
  "d \<le> e \<Longrightarrow> regex_search d s r = StackOverflow \<or> regex_search d s r = regex_search e s r"
proof (induction s)
  case Nil
  then show ?case using match_here_mono [of d e r "[]" "(False, [])"] by simp
next
  case (Cons c s)
  from match_here_mono [OF Cons.prems, of r "c # s" "(False, [])"] Cons.IH [OF Cons.prems]
  show ?case by (auto split: search.splits)
qed

lemma regex_search_returns:
  "length r + length s < d \<Longrightarrow> regex_search d s r \<noteq> StackOverflow"
proof (induction s)
  case Nil
  then show ?case using match_here_returns [of r "[]" d "(False, [])"] by simp
next
  case (Cons c s)
  from Cons.prems have "length r + length s < d" by simp
  from Cons.IH [OF this] match_here_returns [OF Cons.prems, of "(False, [])"]
  show ?case by (auto split: search.splits)
qed




subsection \<open>The matcher and the words a pattern accepts\<close>

text \<open>
  The matcher finds only words the pattern accepts, and it does not answer
  \<^verbatim>\<open>false\<close> when the input starts with such a word.
\<close>

lemma sound_step:
  assumes "\<exists>w rest. s = w @ rest \<and> matches p cap' w g"
    and "\<And>w. matches p cap' w g \<Longrightarrow> matches q cap (c # w) g"
  shows "\<exists>w rest. c # s = w @ rest \<and> matches q cap w g"
proof -
  from assms(1) obtain w rest where "s = w @ rest" and "matches p cap' w g"
    by blast
  then have "c # s = (c # w) @ rest" and "matches q cap (c # w) g"
    using assms(2) by simp_all
  then show ?thesis
    by blast
qed

lemma sound_skip:
  assumes "\<exists>w rest. s = w @ rest \<and> matches p cap' w g"
    and "\<And>w. matches p cap' w g \<Longrightarrow> matches q cap w g"
  shows "\<exists>w rest. s = w @ rest \<and> matches q cap w g"
  using assms by blast

lemma match_here_sound:
  "match_here d p s cap = Match g \<Longrightarrow> \<exists>w rest. s = w @ rest \<and> matches p cap w g"
proof (induction d p s cap rule: match_here.induct)
  case (1 p s cap)
  then show ?case
    by simp
next
  case (2 d s cap)
  then have "s = [] @ s \<and> matches [] cap [] g"
    by (auto intro: m_end)
  then show ?case
    by blast
next
  case (3 d p s cap)
  then show ?case
    by (auto intro!: sound_skip [where q = "GroupOpen # p"] m_open)
next
  case (4 d p s cap)
  then show ?case
    by (auto intro!: sound_skip [where q = "GroupClose # p"] m_close)
next
  case (5 d cs p cap)
  then show ?case
    by simp
next
  case (6 d cs p c s cap)
  from "6.prems" have c: "c \<in> set cs" and m: "match_here d p s (take_char c cap) = Match g"
    by (simp_all split: if_splits)
  from "6.IH" [OF c m] show ?case
    by (rule sound_step) (rule m_atom [OF c])
next
  case (7 d cs p cap)
  then show ?case
    by (auto intro!: sound_skip [where q = "Quest cs # p"] m_quest_none)
next
  case (8 d cs p c s cap)
  show ?case
  proof (cases "c \<in> set cs \<and> match_here d p s (take_char c cap) = Match g")
    case True
    then have c: "c \<in> set cs" and m: "match_here d p s (take_char c cap) = Match g"
      by simp_all
    from "8.IH"(1) [OF c m] show ?thesis
      by (rule sound_step) (rule m_quest_one [OF c])
  next
    case False
    show ?thesis
    proof (cases "c \<in> set cs")
      case True
      with False "8.prems" have n: "match_here d p s (take_char c cap) = NoMatch"
        and m: "match_here d p (c # s) cap = Match g"
        by (auto split: search.splits)
      from "8.IH"(2) [OF True n m] show ?thesis
        by (rule sound_skip) (rule m_quest_none)
    next
      case False
      with "8.prems" have m: "match_here d p (c # s) cap = Match g"
        by simp
      from "8.IH"(3) [OF False m] show ?thesis
        by (rule sound_skip) (rule m_quest_none)
    qed
  qed
next
  case (9 d cs p cap)
  then show ?case
    by (auto intro!: sound_skip [where q = "Star cs # p"] m_star_none)
next
  case (10 d cs p c s cap)
  show ?case
  proof (cases "c \<in> set cs \<and> match_here d (Star cs # p) s (take_char c cap) = Match g")
    case True
    then have c: "c \<in> set cs" and m: "match_here d (Star cs # p) s (take_char c cap) = Match g"
      by simp_all
    from "10.IH"(1) [OF c m] show ?thesis
      by (rule sound_step) (rule m_star_more [OF c])
  next
    case False
    show ?thesis
    proof (cases "c \<in> set cs")
      case True
      with False "10.prems" have n: "match_here d (Star cs # p) s (take_char c cap) = NoMatch"
        and m: "match_here d p (c # s) cap = Match g"
        by (auto split: search.splits)
      from "10.IH"(2) [OF True n m] show ?thesis
        by (rule sound_skip) (rule m_star_none)
    next
      case False
      with "10.prems" have m: "match_here d p (c # s) cap = Match g"
        by simp
      from "10.IH"(3) [OF False m] show ?thesis
        by (rule sound_skip) (rule m_star_none)
    qed
  qed
next
  case (11 d cs p cap)
  then show ?case
    by simp
next
  case (12 d cs p c s cap)
  from "12.prems" have c: "c \<in> set cs"
    and m: "match_here d (Star cs # p) s (take_char c cap) = Match g"
    by (simp_all split: if_splits)
  from "12.IH" [OF c m] show ?case
    by (rule sound_step) (rule m_plus [OF c])
qed

lemma match_here_complete:
  "matches p cap w g \<Longrightarrow> match_here d p (w @ rest) cap \<noteq> NoMatch"
proof (induction p cap w g arbitrary: d rule: matches.induct)
  case (m_end cap)
  show ?case by (cases d) simp_all
next
  case (m_open p w g cap)
  then show ?case by (cases d) simp_all
next
  case (m_close p cap w g)
  then show ?case by (cases d) simp_all
next
  case (m_atom c cs p cap w g)
  then show ?case by (cases d) simp_all
next
  case (m_quest_none p cap w g cs)
  then show ?case by (cases d; cases "w @ rest") (auto split: search.splits)
next
  case (m_quest_one c cs p cap w g)
  then show ?case by (cases d) (auto split: search.splits)
next
  case (m_star_none p cap w g cs)
  then show ?case by (cases d; cases "w @ rest") (auto split: search.splits)
next
  case (m_star_more c cs p cap w g)
  then show ?case by (cases d) (auto split: search.splits)
next
  case (m_plus c cs p cap w g)
  then show ?case by (cases d) simp_all
qed

lemma regex_search_sound:
  "regex_search d s r = Match g \<Longrightarrow> \<exists>pre w post. s = pre @ w @ post \<and> matches r (False, []) w g"
proof (induction s)
  case Nil
  then have "match_here d r [] (False, []) = Match g"
    by simp
  from match_here_sound [OF this] have "matches r (False, []) [] g"
    by simp
  then have "[] = [] @ [] @ [] \<and> matches r (False, []) [] g"
    by simp
  then show ?case
    by (intro exI)
next
  case (Cons c s)
  show ?case
  proof (cases "match_here d r (c # s) (False, [])")
    case StackOverflow
    with Cons.prems show ?thesis
      by simp
  next
    case NoMatch
    with Cons.prems have "regex_search d s r = Match g"
      by simp
    from Cons.IH [OF this] obtain pre w post
      where "s = pre @ w @ post" and "matches r (False, []) w g"
      by (elim exE conjE)
    then have "c # s = (c # pre) @ w @ post \<and> matches r (False, []) w g"
      by simp
    then show ?thesis
      by (intro exI)
  next
    case (Match g')
    with Cons.prems have "match_here d r (c # s) (False, []) = Match g"
      by simp
    from match_here_sound [OF this] obtain w rest
      where "c # s = w @ rest" and "matches r (False, []) w g"
      by (elim exE conjE)
    then have "c # s = [] @ w @ rest \<and> matches r (False, []) w g"
      by simp
    then show ?thesis
      by (intro exI)
  qed
qed

lemma regex_search_complete:
  "matches r (False, []) w g \<Longrightarrow> regex_search d (pre @ w @ post) r \<noteq> NoMatch"
proof (induction pre)
  case Nil
  from match_here_complete [OF Nil, of d post]
  have "match_here d r (w @ post) (False, []) \<noteq> NoMatch" .
  then show ?case
    by (cases "w @ post") (auto split: search.splits)
next
  case (Cons c pre)
  then show ?case
    by (auto split: search.splits)
qed

inductive_simps matches_Nil: "matches [] cap w g"
inductive_simps matches_Open: "matches (GroupOpen # p) cap w g"
inductive_simps matches_Close: "matches (GroupClose # p) cap w g"
inductive_simps matches_Atom: "matches (Atom cs # p) cap w g"
inductive_simps matches_Quest: "matches (Quest cs # p) cap w g"
inductive_simps matches_Plus: "matches (Plus cs # p) cap w g"


lemma matches_Star_elim:
  "matches q cap w g \<Longrightarrow> q = Star cs # p \<Longrightarrow> cap = (True, g0) \<Longrightarrow>
     \<exists>ds w'. w = ds @ w' \<and> set ds \<subseteq> set cs \<and> matches p (True, g0 @ ds) w' g"
proof (induction q cap w g arbitrary: g0 rule: matches.induct)
  case (m_star_none p' cap w g cs')
  then have "w = [] @ w \<and> set [] \<subseteq> set cs \<and> matches p (True, g0 @ []) w g"
    by simp
  then show ?case
    by (intro exI)
next
  case (m_star_more c cs' p' cap w g)
  from m_star_more.prems have eq: "cs' = cs" "p' = p" and cap: "take_char c cap = (True, g0 @ [c])"
    by simp_all
  from m_star_more.IH [OF m_star_more.prems(1) cap] obtain ds w'
    where "w = ds @ w'" and "set ds \<subseteq> set cs" and "matches p (True, (g0 @ [c]) @ ds) w' g"
    by (elim exE conjE)
  with m_star_more.hyps(1) eq
  have "c # w = (c # ds) @ w' \<and> set (c # ds) \<subseteq> set cs \<and> matches p (True, g0 @ (c # ds)) w' g"
    by simp
  then show ?case
    by (intro exI)
qed simp_all

lemma matches_Star_intro:
  "set ds \<subseteq> set cs \<Longrightarrow> matches p (True, g0 @ ds) w' g \<Longrightarrow>
     matches (Star cs # p) (True, g0) (ds @ w') g"
proof (induction ds arbitrary: g0)
  case Nil
  then show ?case
    by (simp add: m_star_none)
next
  case (Cons c ds)
  from Cons.prems have c: "c \<in> set cs" and ds: "set ds \<subseteq> set cs"
    and m: "matches p (True, (g0 @ [c]) @ ds) w' g"
    by simp_all
  from Cons.IH [OF ds m] have "matches (Star cs # p) (take_char c (True, g0)) (ds @ w') g"
    by simp
  from m_star_more [OF c this] show ?case
    by simp
qed

lemma matches_Star:
  "matches (Star cs # p) (True, g0) w g \<longleftrightarrow>
     (\<exists>ds w'. w = ds @ w' \<and> set ds \<subseteq> set cs \<and> matches p (True, g0 @ ds) w' g)"
  using matches_Star_elim [of "Star cs # p" "(True, g0)" w g cs p g0] matches_Star_intro [of _ cs p g0 _ g]
  by blast

text \<open>The two patterns of the program, as sets of words.\<close>

lemmas matches_simps = matches_Nil matches_Open matches_Close matches_Atom matches_Quest matches_Plus matches_Star

lemma r_time_win_matches:
  "matches r_time_win (False, []) w g \<longleftrightarrow>
     w = ''Average = '' @ g @ ''ms'' \<and> g \<noteq> [] \<and> set g \<subseteq> set digit"
  unfolding r_time_win_def lit_def by (cases g) (simp_all add: matches_simps)

lemma spacer_cases: "spacer sp \<longleftrightarrow> sp = [] \<or> (\<exists>c. c \<in> set space \<and> sp = [c])"
proof (cases sp)
  case Nil
  then show ?thesis by (simp add: spacer_def)
next
  case (Cons c sp')
  then show ?thesis by (cases sp') (simp_all add: spacer_def)
qed

lemma tail_matches:
  "matches (Quest space # lit ''ms'') (False, n) w g \<longleftrightarrow>
     g = n \<and> (\<exists>sp. w = sp @ ''ms'' \<and> spacer sp)"
proof -
  have "matches (Quest space # lit ''ms'') (False, n) w g \<longleftrightarrow>
     g = n \<and> (w = [] @ ''ms'' \<or> (\<exists>c. c \<in> set space \<and> w = [c] @ ''ms''))"
    unfolding lit_def by (simp add: matches_simps) blast
  also have "\<dots> \<longleftrightarrow> g = n \<and> (\<exists>sp. w = sp @ ''ms'' \<and> spacer sp)"
    unfolding spacer_cases by blast
  finally show ?thesis .
qed

lemma frac_matches:
  "matches (Star digit # GroupClose # Quest space # lit ''ms'') (True, n) w g \<longleftrightarrow>
     (\<exists>d2 sp. w = d2 @ sp @ ''ms'' \<and> g = n @ d2 \<and> set d2 \<subseteq> set digit \<and> spacer sp)"
proof -
  have "matches (Star digit # GroupClose # Quest space # lit ''ms'') (True, n) w g \<longleftrightarrow>
     (\<exists>ds w'. w = ds @ w' \<and> set ds \<subseteq> set digit \<and>
        matches (Quest space # lit ''ms'') (False, n @ ds) w' g)"
    by (simp only: matches_Star matches_Close snd_conv)
  also have "\<dots> \<longleftrightarrow>
     (\<exists>ds w'. w = ds @ w' \<and> set ds \<subseteq> set digit \<and> g = n @ ds \<and> (\<exists>sp. w' = sp @ ''ms'' \<and> spacer sp))"
    by (simp only: tail_matches)
  also have "\<dots> \<longleftrightarrow>
     (\<exists>d2 sp. w = d2 @ sp @ ''ms'' \<and> g = n @ d2 \<and> set d2 \<subseteq> set digit \<and> spacer sp)"
    by blast
  finally show ?thesis .
qed

lemma dot_matches:
  "matches (Quest ''.'' # Star digit # GroupClose # Quest space # lit ''ms'') (True, n) w g \<longleftrightarrow>
     (\<exists>dot d2 sp. w = dot @ d2 @ sp @ ''ms'' \<and> g = n @ dot @ d2 \<and> (dot = [] \<or> dot = ''.'') \<and>
        set d2 \<subseteq> set digit \<and> spacer sp)"
proof -
  have "matches (Quest ''.'' # Star digit # GroupClose # Quest space # lit ''ms'') (True, n) w g \<longleftrightarrow>
     (\<exists>d2 sp. w = [] @ d2 @ sp @ ''ms'' \<and> g = n @ [] @ d2 \<and> set d2 \<subseteq> set digit \<and> spacer sp)
     \<or> (\<exists>d2 sp. w = ''.'' @ d2 @ sp @ ''ms'' \<and> g = n @ ''.'' @ d2 \<and> set d2 \<subseteq> set digit \<and> spacer sp)"
    by (simp add: matches_Quest frac_matches) blast
  also have "\<dots> \<longleftrightarrow>
     (\<exists>dot d2 sp. w = dot @ d2 @ sp @ ''ms'' \<and> g = n @ dot @ d2 \<and> (dot = [] \<or> dot = ''.'') \<and>
        set d2 \<subseteq> set digit \<and> spacer sp)"
    by blast
  finally show ?thesis .
qed

lemma int_matches:
  "matches (Plus digit # Quest ''.'' # Star digit # GroupClose # Quest space # lit ''ms'') (True, []) w g \<longleftrightarrow>
     (\<exists>sp. w = g @ sp @ ''ms'' \<and> number_text g \<and> spacer sp)"
proof -
  have "matches (Plus digit # Quest ''.'' # Star digit # GroupClose # Quest space # lit ''ms'') (True, []) w g \<longleftrightarrow>
     (\<exists>c ds dot d2 sp. w = (c # ds) @ dot @ d2 @ sp @ ''ms'' \<and> g = (c # ds) @ dot @ d2 \<and>
        set (c # ds) \<subseteq> set digit \<and> (dot = [] \<or> dot = ''.'') \<and> set d2 \<subseteq> set digit \<and> spacer sp)"
    by (simp add: matches_Plus matches_Star dot_matches) blast
  also have "\<dots> \<longleftrightarrow>
     (\<exists>d1 dot d2 sp. w = d1 @ dot @ d2 @ sp @ ''ms'' \<and> g = d1 @ dot @ d2 \<and> d1 \<noteq> [] \<and>
        set d1 \<subseteq> set digit \<and> (dot = [] \<or> dot = ''.'') \<and> set d2 \<subseteq> set digit \<and> spacer sp)"
    (is "?L \<longleftrightarrow> ?R")
  proof
    assume ?L
    then obtain c ds dot d2 sp where "w = (c # ds) @ dot @ d2 @ sp @ ''ms'' \<and> g = (c # ds) @ dot @ d2 \<and>
        c # ds \<noteq> [] \<and> set (c # ds) \<subseteq> set digit \<and> (dot = [] \<or> dot = ''.'') \<and> set d2 \<subseteq> set digit \<and> spacer sp"
      by blast
    then show ?R
      by (intro exI)
  next
    assume ?R
    then obtain d1 dot d2 sp where *: "w = d1 @ dot @ d2 @ sp @ ''ms''" "g = d1 @ dot @ d2" "d1 \<noteq> []"
        "set d1 \<subseteq> set digit" "dot = [] \<or> dot = ''.''" "set d2 \<subseteq> set digit" "spacer sp"
      by blast
    from \<open>d1 \<noteq> []\<close> obtain c ds where "d1 = c # ds"
      by (cases d1) simp_all
    with * have "w = (c # ds) @ dot @ d2 @ sp @ ''ms'' \<and> g = (c # ds) @ dot @ d2 \<and>
        set (c # ds) \<subseteq> set digit \<and> (dot = [] \<or> dot = ''.'') \<and> set d2 \<subseteq> set digit \<and> spacer sp"
      by simp
    then show ?L
      by (intro exI)
  qed
  also have "\<dots> \<longleftrightarrow> (\<exists>sp. w = g @ sp @ ''ms'' \<and> number_text g \<and> spacer sp)"
    (is "?R \<longleftrightarrow> ?N")
  proof
    assume ?R
    then obtain d1 dot d2 sp where w: "w = d1 @ dot @ d2 @ sp @ ''ms''" and g: "g = d1 @ dot @ d2"
      and n: "d1 \<noteq> [] \<and> set d1 \<subseteq> set digit \<and> (dot = [] \<or> dot = ''.'') \<and> set d2 \<subseteq> set digit"
      and sp: "spacer sp"
      by blast
    from g n have "number_text g"
      unfolding number_text_def by blast
    moreover from w g have "w = g @ sp @ ''ms''"
      by simp
    ultimately show ?N
      using sp by blast
  next
    assume ?N
    then obtain sp where w: "w = g @ sp @ ''ms''" and n: "number_text g" and sp: "spacer sp"
      by blast
    from n obtain d1 dot d2 where g: "g = d1 @ dot @ d2"
      and d: "d1 \<noteq> []" "set d1 \<subseteq> set digit" "dot = [] \<or> dot = ''.''" "set d2 \<subseteq> set digit"
      unfolding number_text_def by blast
    from w g have "w = d1 @ dot @ d2 @ sp @ ''ms''"
      by simp
    with g d sp show ?R
      by blast
  qed
  finally show ?thesis .
qed

lemma r_time_matches:
  "matches r_time (False, []) w g \<longleftrightarrow>
     (\<exists>sp. w = ''time='' @ g @ sp @ ''ms'' \<and> number_text g \<and> spacer sp)"
proof -
  have "matches r_time (False, []) w g \<longleftrightarrow>
     (\<exists>w'. w = ''time='' @ w' \<and>
        matches (Plus digit # Quest ''.'' # Star digit # GroupClose # Quest space # lit ''ms'') (True, []) w' g)"
    unfolding r_time_def by (simp add: lit_def matches_Atom matches_Open) blast
  also have "\<dots> \<longleftrightarrow> (\<exists>sp. w = ''time='' @ g @ sp @ ''ms'' \<and> number_text g \<and> spacer sp)"
    unfolding int_matches by blast
  finally show ?thesis .
qed

text \<open>
  What a search that returns tells about the text: the first pattern finds a number
  between \<^verbatim>\<open>time=\<close> and \<^verbatim>\<open>ms\<close>, the second one a run of digits between
  \<^verbatim>\<open>Average = \<close> and \<^verbatim>\<open>ms\<close>; and with enough stack each search succeeds exactly
  on the texts that contain such a piece.
\<close>

lemma r_time_length: "length r_time = 13"
  by (simp add: r_time_def lit_def)

lemma r_time_win_length: "length r_time_win = 15"
  by (simp add: r_time_win_def lit_def)

lemma r_time_search_capture:
  assumes "regex_search stack s r_time = Match n"
  shows "number_text n \<and> (\<exists>pre sp post. s = pre @ ''time='' @ n @ sp @ ''ms'' @ post \<and> spacer sp)"
proof -
  from regex_search_sound [OF assms] obtain pre w post
    where s: "s = pre @ w @ post" and "matches r_time (False, []) w n"
    by blast
  then obtain sp where "w = ''time='' @ n @ sp @ ''ms''" and n: "number_text n" and "spacer sp"
    unfolding r_time_matches by blast
  with s have "s = pre @ ''time='' @ n @ sp @ ''ms'' @ post \<and> spacer sp"
    by simp
  then have "\<exists>pre sp post. s = pre @ ''time='' @ n @ sp @ ''ms'' @ post \<and> spacer sp"
    by (intro exI)
  with n show ?thesis
    by (rule conjI)
qed

lemma r_time_win_search_capture:
  assumes "regex_search stack s r_time_win = Match n"
  shows "n \<noteq> [] \<and> set n \<subseteq> set digit \<and> (\<exists>pre post. s = pre @ ''Average = '' @ n @ ''ms'' @ post)"
proof -
  from regex_search_sound [OF assms] obtain pre w post
    where s: "s = pre @ w @ post" and "matches r_time_win (False, []) w n"
    by blast
  then have w: "w = ''Average = '' @ n @ ''ms''" and n: "n \<noteq> []" "set n \<subseteq> set digit"
    unfolding r_time_win_matches by simp_all
  from s w have "s = pre @ ''Average = '' @ n @ ''ms'' @ post"
    by simp
  then have "\<exists>pre post. s = pre @ ''Average = '' @ n @ ''ms'' @ post"
    by (intro exI)
  with n show ?thesis
    by simp
qed

lemma r_time_search_finds:
  assumes "has_time s"
  shows "regex_search stack s r_time \<noteq> NoMatch"
proof -
  from assms obtain pre n sp post where s: "s = pre @ ''time='' @ n @ sp @ ''ms'' @ post"
    and "number_text n" and "spacer sp"
    unfolding has_time_def by blast
  then have "matches r_time (False, []) (''time='' @ n @ sp @ ''ms'') n"
    unfolding r_time_matches by blast
  from regex_search_complete [OF this, of stack pre post] s show ?thesis
    by simp
qed

lemma r_time_win_search_finds:
  assumes "has_average s"
  shows "regex_search stack s r_time_win \<noteq> NoMatch"
proof -
  from assms obtain pre n post where s: "s = pre @ ''Average = '' @ n @ ''ms'' @ post"
    and "n \<noteq> []" and "set n \<subseteq> set digit"
    unfolding has_average_def by blast
  then have "matches r_time_win (False, []) (''Average = '' @ n @ ''ms'') n"
    unfolding r_time_win_matches by simp
  from regex_search_complete [OF this, of stack pre post] s show ?thesis
    by simp
qed

lemma r_time_search_iff:
  assumes "length s + 13 < stack"
  shows "(\<exists>n. regex_search stack s r_time = Match n) \<longleftrightarrow> has_time s"
proof
  assume "\<exists>n. regex_search stack s r_time = Match n"
  then obtain n where "regex_search stack s r_time = Match n"
    by blast
  from r_time_search_capture [OF this] show "has_time s"
    unfolding has_time_def by blast
next
  assume "has_time s"
  then have "regex_search stack s r_time \<noteq> NoMatch"
    by (rule r_time_search_finds)
  moreover from assms have "regex_search stack s r_time \<noteq> StackOverflow"
    by (intro regex_search_returns) (simp add: r_time_length)
  ultimately show "\<exists>n. regex_search stack s r_time = Match n"
    by (cases "regex_search stack s r_time") simp_all
qed

lemma r_time_win_search_iff:
  assumes "length s + 15 < stack"
  shows "(\<exists>n. regex_search stack s r_time_win = Match n) \<longleftrightarrow> has_average s"
proof
  assume "\<exists>n. regex_search stack s r_time_win = Match n"
  then obtain n where "regex_search stack s r_time_win = Match n"
    by blast
  from r_time_win_search_capture [OF this] show "has_average s"
    unfolding has_average_def by blast
next
  assume "has_average s"
  then have "regex_search stack s r_time_win \<noteq> NoMatch"
    by (rule r_time_win_search_finds)
  moreover from assms have "regex_search stack s r_time_win \<noteq> StackOverflow"
    by (intro regex_search_returns) (simp add: r_time_win_length)
  ultimately show "\<exists>n. regex_search stack s r_time_win = Match n"
    by (cases "regex_search stack s r_time_win") simp_all
qed

lemma searches_return:
  assumes "length pipe + 15 < stack"
  shows "regex_search stack (read_loop pipe []) r_time \<noteq> StackOverflow"
    and "regex_search stack (read_loop pipe []) r_time_win \<noteq> StackOverflow"
proof -
  from read_loop_length [of pipe "[]"] assms have "length (read_loop pipe []) + 15 < stack"
    by simp
  then show "regex_search stack (read_loop pipe []) r_time \<noteq> StackOverflow"
    and "regex_search stack (read_loop pipe []) r_time_win \<noteq> StackOverflow"
    by (auto intro!: regex_search_returns simp: r_time_length r_time_win_length)
qed

subsection \<open>The outcome in terms of the text\<close>

text \<open>
  Once the command has run, has written no zero byte, and the stack is deeper than its
  output is long, the exit code is a function of what the output contains: 0 when it
  holds a \<^verbatim>\<open>time=\<close> or an \<^verbatim>\<open>Average = \<close> piece, 2 otherwise.
\<close>

lemma exit_code_in_terms_of_text:
  assumes "length argv = 2" and "popen (cmd_of (argv ! 1)) = Some pipe" and "NUL \<notin> set pipe"
    and "length pipe + 15 < stack"
  shows "exit_code (main stack argv popen) = Some (if has_time pipe \<or> has_average pipe then 0 else 2)"
proof -
  from assms(3) have r: "read_loop pipe [] = pipe"
    by (simp add: read_loop_text)
  from assms(4) have t: "has_time pipe \<longleftrightarrow> (\<exists>n. regex_search stack pipe r_time = Match n)"
    by (intro r_time_search_iff [symmetric]) simp
  from assms(4) have a: "has_average pipe \<longleftrightarrow> (\<exists>n. regex_search stack pipe r_time_win = Match n)"
    by (intro r_time_win_search_iff [symmetric]) simp
  from searches_return [OF assms(4)] r
  have "regex_search stack pipe r_time \<noteq> StackOverflow"
    and "regex_search stack pipe r_time_win \<noteq> StackOverflow"
    by simp_all
  with assms(1,2) r show ?thesis
    unfolding t a by (auto simp: main_def Let_def split: option.splits search.splits)
qed

text \<open>A run that is not killed has the same outcome on every larger stack.\<close>

lemma main_stack_mono:
  assumes "d \<le> e"
  shows "exit_code (main d argv popen) = None \<or> main d argv popen = main e argv popen"
proof (cases "length argv = 2")
  case False
  then show ?thesis
    by (simp add: main_def)
next
  case True
  show ?thesis
  proof (cases "popen (cmd_of (argv ! 1))")
    case None
    with True show ?thesis
      by (simp add: main_def)
  next
    case (Some pipe)
    from regex_search_mono [OF assms, of "read_loop pipe []" r_time]
      regex_search_mono [OF assms, of "read_loop pipe []" r_time_win] True Some
    show ?thesis
      by (auto simp: main_def Let_def killed_def split: search.splits)
  qed
qed


section \<open>Properties of the program\<close>

text \<open>
  The program contains no packet codec, no transport and no session state machine: it
  delegates the whole measurement to the system's ping utility. The properties below
  are those of the wrapper: its exit code, the command it runs and the line it prints.
\<close>

subsection \<open>Exit codes\<close>







subsection \<open>The command\<close>

text \<open>
  C8. For every host string \<open>h\<close> given as the single argument, the command the program
  runs is exactly the concatenation of \<^verbatim>\<open>"ping -c 1 "\<close>, \<open>h\<close> and \<^verbatim>\<open>" 2>&1"\<close>:
  that string is the one recorded as spawned, it is the string \<^verbatim>\<open>popen\<close> is asked
  about (the program fails with exit code 1 exactly when \<^verbatim>\<open>popen\<close> fails on that
  string), and what \<^verbatim>\<open>popen\<close> would answer on any other string has no influence on
  the run. The statement holds for every \<open>h\<close>: nothing is quoted, escaped or rejected,
  so shell metacharacters in \<open>h\<close> reach the shell as they are.
\<close>

theorem main_runs_verbatim_command:
  "spawned (main stack [prog, h] popen) = [''ping -c 1 '' @ h @ '' 2>&1'']
   \<and> (exit_code (main stack [prog, h] popen) = Some 1 \<longleftrightarrow>
        popen (''ping -c 1 '' @ h @ '' 2>&1'') = None)
   \<and> (popen (''ping -c 1 '' @ h @ '' 2>&1'') = popen' (''ping -c 1 '' @ h @ '' 2>&1'') \<longrightarrow>
        main stack [prog, h] popen = main stack [prog, h] popen')"
  by (auto simp: main_def cmd_of_def Let_def killed_def split: option.splits search.splits)

text \<open>
  A host argument that carries a second shell command. The run succeeds when \<^verbatim>\<open>popen\<close>
  knows the command with the argument pasted in as it is; it fails with exit code 1 when
  \<^verbatim>\<open>popen\<close> knows only the command for the bare host name and the command with the
  argument in quotes; and an entry for the bare host name changes nothing.
\<close>

theorem main_runs_verbatim_command_witness:
  "spawned (main 1000 [''ping_cmd'', ''x; echo time=1 ms'']
      (map_of [(''ping -c 1 x; echo time=1 ms 2>&1'', ''time=1 ms'' @ [LF])]))
     = [''ping -c 1 x; echo time=1 ms 2>&1'']
   \<and> exit_code (main 1000 [''ping_cmd'', ''x; echo time=1 ms'']
      (map_of [(''ping -c 1 x; echo time=1 ms 2>&1'', ''time=1 ms'' @ [LF])])) \<noteq> Some 1
   \<and> exit_code (main 1000 [''ping_cmd'', ''x; echo time=1 ms'']
      (map_of [(''ping -c 1 x 2>&1'', ''time=1 ms'' @ [LF]),
               (''ping -c 1 \"x; echo time=1 ms\" 2>&1'', ''time=1 ms'' @ [LF])])) = Some 1
   \<and> main 1000 [''ping_cmd'', ''x; echo time=1 ms'']
      (map_of [(''ping -c 1 x; echo time=1 ms 2>&1'', ''time=1 ms'' @ [LF])])
     = main 1000 [''ping_cmd'', ''x; echo time=1 ms'']
      (map_of [(''ping -c 1 x 2>&1'', ''ping: x: Name or service not known'' @ [LF]),
               (''ping -c 1 x; echo time=1 ms 2>&1'', ''time=1 ms'' @ [LF])])"
proof -
  let ?h = "''x; echo time=1 ms''"
  let ?verbatim = "map_of [(''ping -c 1 x; echo time=1 ms 2>&1'', ''time=1 ms'' @ [LF])]"
  let ?cleaned = "map_of [(''ping -c 1 x 2>&1'', ''time=1 ms'' @ [LF]),
               (''ping -c 1 \"x; echo time=1 ms\" 2>&1'', ''time=1 ms'' @ [LF])]"
  let ?both = "map_of [(''ping -c 1 x 2>&1'', ''ping: x: Name or service not known'' @ [LF]),
               (''ping -c 1 x; echo time=1 ms 2>&1'', ''time=1 ms'' @ [LF])]"
  have a: "?verbatim (''ping -c 1 '' @ ?h @ '' 2>&1'') \<noteq> None"
    by code_simp
  have b: "?cleaned (''ping -c 1 '' @ ?h @ '' 2>&1'') = None"
    by code_simp
  have c: "?verbatim (''ping -c 1 '' @ ?h @ '' 2>&1'') = ?both (''ping -c 1 '' @ ?h @ '' 2>&1'')"
    by code_simp
  have cmd: "''ping -c 1 '' @ ?h @ '' 2>&1'' = ''ping -c 1 x; echo time=1 ms 2>&1''"
    by simp
  note t1 = main_runs_verbatim_command [of 1000 "''ping_cmd''" ?h ?verbatim ?both]
  note t2 = main_runs_verbatim_command [of 1000 "''ping_cmd''" ?h ?cleaned ?cleaned]
  from t1 have "spawned (main 1000 [''ping_cmd'', ?h] ?verbatim) = [''ping -c 1 '' @ ?h @ '' 2>&1'']"
    by (rule conjunct1)
  then have 1: "spawned (main 1000 [''ping_cmd'', ?h] ?verbatim) = [''ping -c 1 x; echo time=1 ms 2>&1'']"
    by (simp only: cmd)
  from t1 have "exit_code (main 1000 [''ping_cmd'', ?h] ?verbatim) = Some 1 \<longleftrightarrow>
      ?verbatim (''ping -c 1 '' @ ?h @ '' 2>&1'') = None"
    by (elim conjE)
  with a have 2: "exit_code (main 1000 [''ping_cmd'', ?h] ?verbatim) \<noteq> Some 1"
    by (simp only: simp_thms)
  from t2 have "exit_code (main 1000 [''ping_cmd'', ?h] ?cleaned) = Some 1 \<longleftrightarrow>
      ?cleaned (''ping -c 1 '' @ ?h @ '' 2>&1'') = None"
    by (elim conjE)
  with b have 3: "exit_code (main 1000 [''ping_cmd'', ?h] ?cleaned) = Some 1"
    by (simp only: simp_thms)
  from t1 have "?verbatim (''ping -c 1 '' @ ?h @ '' 2>&1'') = ?both (''ping -c 1 '' @ ?h @ '' 2>&1'') \<longrightarrow>
      main 1000 [''ping_cmd'', ?h] ?verbatim = main 1000 [''ping_cmd'', ?h] ?both"
    by (elim conjE)
  with c have 4: "main 1000 [''ping_cmd'', ?h] ?verbatim = main 1000 [''ping_cmd'', ?h] ?both"
    by (rule rev_mp)
  from 1 2 3 4 show ?thesis
    by (intro conjI)
qed

subsection \<open>The reported line\<close>



text \<open>
  When only the second pattern matches, the program returns 0 and the line it prints
  is not \<^verbatim>\<open>Reply from <host>: time=<n> ms\<close>: it carries the suffix \<^verbatim>\<open> (avg)\<close>.
\<close>

theorem avg_line_counterexample:
  "exit_code (main 1000 [''ping_cmd'', ''h'']
      (map_of [(''ping -c 1 h 2>&1'', ''Minimum = 11ms, Maximum = 13ms, Average = 12ms'')])) = Some 0
   \<and> out (main 1000 [''ping_cmd'', ''h'']
      (map_of [(''ping -c 1 h 2>&1'', ''Minimum = 11ms, Maximum = 13ms, Average = 12ms'')]))
       = ''Reply from h: time=12 ms (avg)'' @ [LF]
   \<and> out (main 1000 [''ping_cmd'', ''h'']
      (map_of [(''ping -c 1 h 2>&1'', ''Minimum = 11ms, Maximum = 13ms, Average = 12ms'')]))
       \<noteq> ''Reply from h: time=12 ms'' @ [LF]"
  by code_simp

text \<open>
  C7, as the program has it. When the program returns 0, exactly one line was written
  to standard output. It is \<^verbatim>\<open>Reply from <host>: time=<n> ms\<close> when the first
  pattern matched, and \<^verbatim>\<open>Reply from <host>: time=<n> ms (avg)\<close> when only the second
  did; \<^verbatim>\<open><host>\<close> is the command-line argument and \<^verbatim>\<open><n>\<close> the text captured by the
  pattern that matched.
\<close>

theorem success_line:
  assumes "exit_code (main stack argv popen) = Some 0"
  shows "\<exists>pipe n. length argv = 2 \<and> popen (cmd_of (argv ! 1)) = Some pipe \<and>
           (regex_search stack (read_loop pipe []) r_time = Match n \<and>
              out (main stack argv popen) = ''Reply from '' @ argv ! 1 @ '': time='' @ n @ '' ms'' @ [LF]
            \<or> regex_search stack (read_loop pipe []) r_time = NoMatch \<and>
              regex_search stack (read_loop pipe []) r_time_win = Match n \<and>
              out (main stack argv popen) = ''Reply from '' @ argv ! 1 @ '': time='' @ n @ '' ms (avg)'' @ [LF])"
  using assms by (auto simp: main_def Let_def killed_def split: option.splits if_splits search.splits)

text \<open>A run on the reply line of the ping utility.\<close>

theorem success_line_witness:
  "exit_code (main 1000 [''ping_cmd'', ''h'']
      (map_of [(''ping -c 1 h 2>&1'', ''64 bytes from h: icmp_seq=1 ttl=64 time=0.04 ms'')])) = Some 0
   \<and> out (main 1000 [''ping_cmd'', ''h'']
      (map_of [(''ping -c 1 h 2>&1'', ''64 bytes from h: icmp_seq=1 ttl=64 time=0.04 ms'')]))
       = ''Reply from h: time=0.04 ms'' @ [LF]"
proof -
  let ?t = "''64 bytes from h: icmp_seq=1 ttl=64 time=0.04 ms''"
  have a: "exit_code (main 1000 [''ping_cmd'', ''h''] (map_of [(''ping -c 1 h 2>&1'', ?t)])) = Some 0"
    by code_simp
  have p: "map_of [(''ping -c 1 h 2>&1'', ?t)] (cmd_of ([''ping_cmd'', ''h''] ! 1)) = Some ?t"
    by code_simp
  have r: "regex_search 1000 (read_loop ?t []) r_time = Match ''0.04''"
    by code_simp
  from success_line [OF a] p r
  have "out (main 1000 [''ping_cmd'', ''h''] (map_of [(''ping -c 1 h 2>&1'', ?t)]))
       = ''Reply from h: time=0.04 ms'' @ [LF]"
    by auto
  with a show ?thesis
    by blast
qed

end
